theory Spec2Isabelle
  imports Main
begin

section \<open>The tree component of pyjira (src/pyjira/container.py)\<close>

text \<open>
  The development embeds \<^verbatim>\<open>TreeElement\<close> and \<^verbatim>\<open>TreeComponent\<close> of
  \<^verbatim>\<open>src/pyjira/container.py\<close>. Python integers are \<open>int\<close>, strings are \<open>string\<close>,
  a raised exception is the \<open>Inl\<close> branch of a sum, and the mutable attributes of the
  component are the fields of a record that every handler returns updated.
\<close>

subsection \<open>Data model\<close>

text \<open>
  \<^verbatim>\<open>@dataclass class TreeElement: value; children = []; expanded = False\<close>.
  The forest is built by \<^verbatim>\<open>_transform_to_view_data\<close> (src/jira\_cli.py), which creates a
  fresh object for every node, so a forest is a finite tree-shaped value and a node is
  identified by its position in it. The selector of the payload is called \<open>value_of\<close>.
\<close>

datatype 'a TreeElement =
  TreeElement (value_of: 'a) (children: "'a TreeElement list") (expanded: bool)

text \<open>
  The state of a \<^verbatim>\<open>TreeComponent\<close>: the attributes \<^verbatim>\<open>values\<close> and
  \<^verbatim>\<open>_selected_index\<close> that the handlers mutate, and the class attributes
  \<^verbatim>\<open>open_character\<close>, \<^verbatim>\<open>close_character\<close> and \<^verbatim>\<open>default_style\<close> that the
  renderer reads (a subclass overrides them).
\<close>

record 'a TreeComponent =
  values_of :: "'a TreeElement list"
  selected_index :: int
  open_character :: string
  close_character :: string
  default_style :: string

text \<open>
  The only exception the component itself can raise: reading or writing an attribute of
  \<^verbatim>\<open>None\<close>. A raising handler returns \<open>Inl\<close> with the exception and the state it
  leaves behind.
\<close>

datatype py_error = AttributeError

type_synonym 'a outcome = "(py_error \<times> 'a TreeComponent) + 'a TreeComponent"

subsection \<open>Traversal of the visible nodes\<close>

text \<open>
  \<^verbatim>\<open>
  def _traverse_visible(self, elements, level):
      for e in elements:
          yield level, e
          if e.expanded:
              yield from self._traverse_visible(e.children, level + 1)
  \<close>
  The generator is modelled by the list of what it yields.
\<close>

fun traverse_visible :: "'a TreeElement list \<Rightarrow> int \<Rightarrow> (int \<times> 'a TreeElement) list" where
  "traverse_visible [] level = []"
| "traverse_visible (TreeElement v cs ex # es) level =
     (level, TreeElement v cs ex)
       # (if ex then traverse_visible cs (level + 1) else [])
       @ traverse_visible es level"

text \<open>\<^verbatim>\<open>return len(list(self._traverse_visible(self.values, 0)))\<close>\<close>

definition number_of_visible_elements :: "'a TreeComponent \<Rightarrow> int" where
  "number_of_visible_elements s = int (length (traverse_visible (values_of s) 0))"

text \<open>
  \<^verbatim>\<open>
  def _find_expanded_by_index(self, i):
      index = 0
      for _, element in self._traverse_visible(self.values, 0):
          if i == index:
              return element
          index += 1
  \<close>
  Falling off the end of the loop returns \<^verbatim>\<open>None\<close>.
\<close>

fun find_loop :: "int \<Rightarrow> int \<Rightarrow> (int \<times> 'a TreeElement) list \<Rightarrow> 'a TreeElement option" where
  "find_loop i index [] = None"
| "find_loop i index ((_, element) # rest) =
     (if i = index then Some element else find_loop i (index + 1) rest)"

definition find_expanded_by_index :: "'a TreeComponent \<Rightarrow> int \<Rightarrow> 'a TreeElement option" where
  "find_expanded_by_index s i = find_loop i 0 (traverse_visible (values_of s) 0)"

definition get_selected_element :: "'a TreeComponent \<Rightarrow> 'a TreeElement option" where
  "get_selected_element s = find_expanded_by_index s (selected_index s)"

subsection \<open>Operations\<close>

text \<open>\<^verbatim>\<open>self.values = values; self._selected_index = 0\<close>\<close>

definition set_values :: "'a TreeElement list \<Rightarrow> 'a TreeComponent \<Rightarrow> 'a TreeComponent" where
  "set_values vs s = s\<lparr>values_of := vs, selected_index := 0\<rparr>"

text \<open>The key handlers \<^verbatim>\<open>_up\<close> and \<^verbatim>\<open>_down\<close>.\<close>

definition up :: "'a TreeComponent \<Rightarrow> 'a TreeComponent" where
  "up s = s\<lparr>selected_index := max 0 (selected_index s - 1)\<rparr>"

definition down :: "'a TreeComponent \<Rightarrow> 'a TreeComponent" where
  "down s = s\<lparr>selected_index :=
     min (number_of_visible_elements s - 1) (selected_index s + 1)\<rparr>"

text \<open>
  \<^verbatim>\<open>_pageup\<close> and \<^verbatim>\<open>_pagedown\<close> read \<^verbatim>\<open>w.render_info\<close> of the current window,
  which belongs to the hosting toolkit: the argument is \<open>None\<close> when there is no render
  info, and \<open>Some n\<close> with \<open>n = len(w.render_info.displayed_lines)\<close> otherwise.
\<close>

definition pageup :: "nat option \<Rightarrow> 'a TreeComponent \<Rightarrow> 'a TreeComponent" where
  "pageup render_info s =
     (case render_info of
        None \<Rightarrow> s
      | Some displayed_lines \<Rightarrow>
          s\<lparr>selected_index := max 0 (selected_index s - int displayed_lines)\<rparr>)"

definition pagedown :: "nat option \<Rightarrow> 'a TreeComponent \<Rightarrow> 'a TreeComponent" where
  "pagedown render_info s =
     (case render_info of
        None \<Rightarrow> s
      | Some displayed_lines \<Rightarrow>
          s\<lparr>selected_index :=
            min (number_of_visible_elements s - 1) (selected_index s + int displayed_lines)\<rparr>)"

text \<open>
  The assignment \<^verbatim>\<open>element.expanded = ...\<close> writes to the object that the traversal
  yielded at position \<open>i\<close>. On a tree-shaped value this is the forest in which the node
  at visible position \<open>i\<close> carries the new flag: the walk below counts the visible
  entries in the order of \<open>traverse_visible\<close>, descending into the children of an
  expanded node only.
\<close>

fun set_expanded_at :: "nat \<Rightarrow> bool \<Rightarrow> 'a TreeElement list \<Rightarrow> 'a TreeElement list" where
  "set_expanded_at i b [] = []"
| "set_expanded_at 0 b (TreeElement v cs ex # es) = TreeElement v cs b # es"
| "set_expanded_at (Suc i) b (TreeElement v cs ex # es) =
     (let n = (if ex then length (traverse_visible cs 0) else 0) in
      if i < n then TreeElement v (set_expanded_at i b cs) ex # es
      else TreeElement v cs ex # set_expanded_at (i - n) b es)"

text \<open>
  \<^verbatim>\<open>
  def _handle_enter(self):
      element = self._find_expanded_by_index(self._selected_index)
      element.expanded = not element.expanded
  \<close>
  When nothing is found, \<^verbatim>\<open>element\<close> is \<^verbatim>\<open>None\<close> and reading
  \<^verbatim>\<open>element.expanded\<close> raises \<^verbatim>\<open>AttributeError\<close>.
\<close>

definition handle_enter :: "'a TreeComponent \<Rightarrow> 'a outcome" where
  "handle_enter s =
     (case find_expanded_by_index s (selected_index s) of
        None \<Rightarrow> Inl (AttributeError, s)
      | Some element \<Rightarrow>
          Inr (s\<lparr>values_of :=
            set_expanded_at (nat (selected_index s)) (\<not> expanded element) (values_of s)\<rparr>))"

text \<open>
  \<^verbatim>\<open>
  def mouse_handler(mouse_event):
      if mouse_event.event_type == MouseEventType.MOUSE_UP:
          self._selected_index = mouse_event.position.y
          self._handle_enter()
  \<close>
  The event types are those of the hosting toolkit.
\<close>

datatype MouseEventType = MOUSE_UP | MOUSE_DOWN | SCROLL_UP | SCROLL_DOWN | MOUSE_MOVE

record MouseEvent =
  event_type :: MouseEventType
  position_y :: int

definition mouse_handler :: "MouseEvent \<Rightarrow> 'a TreeComponent \<Rightarrow> 'a outcome" where
  "mouse_handler mouse_event s =
     (if event_type mouse_event = MOUSE_UP
      then handle_enter (s\<lparr>selected_index := position_y mouse_event\<rparr>)
      else Inr s)"

subsection \<open>Rendering\<close>

text \<open>
  A fragment is a pair of a style and a text. The payload's \<^verbatim>\<open>render()\<close> (the
  \<^verbatim>\<open>Drawable\<close> capability, implemented outside the component) is a parameter
  \<open>render\<close> that returns the payload's fragments: any styled text, but it does return,
  the payload being one that implements the capability. The closure
  \<^verbatim>\<open>mouse_handler\<close> that the last loop attaches to every fragment is the token
  \<open>MouseHandler\<close>.
\<close>

type_synonym fragment = "string \<times> string"

datatype handler = MouseHandler

type_synonym handled_fragment = "string \<times> string \<times> handler"

text \<open>
  The body of the loop of \<^verbatim>\<open>_get_text_fragments\<close> for one visible node, up to and
  including \<^verbatim>\<open>result.extend(element.value.render())\<close>:
  \<^verbatim>\<open>
  style = ""
  for i in range(level):
      result.append((style, "   "))
  selected = current_index == self._selected_index
  result.append((style, self.open_character))
  if selected:
      result.append(("[SetCursorPosition]", ""))
  if element.children:
      if element.expanded:
          result.append((style, "-"))
      else:
          result.append((style, "+"))
  else:
      result.append((style, " "))
  result.append((style, self.close_character))
  result.append((self.default_style, " "))
  result.extend(element.value.render())
  \<close>
\<close>

definition row_fragments ::
  "'a TreeComponent \<Rightarrow> ('a \<Rightarrow> fragment list) \<Rightarrow> int \<Rightarrow> int \<Rightarrow> 'a TreeElement \<Rightarrow> fragment list"
where
  "row_fragments s render current_index level element =
     (let style = '''';
          selected = (current_index = selected_index s)
      in replicate (nat level) (style, ''   '')
         @ [(style, open_character s)]
         @ (if selected then [(''[SetCursorPosition]'', '''')] else [])
         @ [if children element \<noteq> []
            then (if expanded element then (style, ''-'') else (style, ''+''))
            else (style, '' '')]
         @ [(style, close_character s), (default_style s, '' '')]
         @ render (value_of element))"

text \<open>
  The loop over the visible nodes: each row, then \<^verbatim>\<open>result.append(("", "\n"))\<close> and
  \<^verbatim>\<open>current_index += 1\<close>.
\<close>

fun fragments_loop ::
  "'a TreeComponent \<Rightarrow> ('a \<Rightarrow> fragment list) \<Rightarrow> int \<Rightarrow> (int \<times> 'a TreeElement) list
     \<Rightarrow> fragment list"
where
  "fragments_loop s render current_index [] = []"
| "fragments_loop s render current_index ((level, element) # rest) =
     row_fragments s render current_index level element
       @ [('''', [CHR 0x0A])]
       @ fragments_loop s render (current_index + 1) rest"

text \<open>
  \<^verbatim>\<open>
  for i in range(len(result)):
      result[i] = (result[i][0], result[i][1], mouse_handler)
  if len(result) > 0:
      result.pop()  # Remove last newline.
  return result
  \<close>
\<close>

definition add_handler :: "fragment \<Rightarrow> handled_fragment" where
  "add_handler f = (fst f, snd f, MouseHandler)"

definition get_text_fragments ::
  "'a TreeComponent \<Rightarrow> ('a \<Rightarrow> fragment list) \<Rightarrow> handled_fragment list"
where
  "get_text_fragments s render =
     (let result = fragments_loop s render 0 (traverse_visible (values_of s) 0);
          result = map add_handler result
      in if length result > 0 then butlast result else result)"

subsection \<open>Notions of the specification\<close>

text \<open>
  The depth-first pre-order of one node at a given depth, as the specification words it:
  the node itself first, then, only when the node is expanded, its children in order,
  one level deeper.
\<close>

fun visible_preorder :: "int \<Rightarrow> 'a TreeElement \<Rightarrow> (int \<times> 'a TreeElement) list" where
  "visible_preorder depth (TreeElement v cs ex) =
     (depth, TreeElement v cs ex)
       # (if ex then concat (map (visible_preorder (depth + 1)) cs) else [])"

text \<open>The invariant that the specification states for the selection.\<close>

definition selection_invariant :: "'a TreeComponent \<Rightarrow> bool" where
  "selection_invariant s =
     (0 \<le> selected_index s \<and> selected_index s < max 1 (number_of_visible_elements s))"

text \<open>The navigation operations, and a sequence of them run from left to right.\<close>

datatype 'a navigation =
  MoveUp | MoveDown | PageUp "nat option" | PageDown "nat option"
  | SetValues "'a TreeElement list"

fun navigate :: "'a navigation \<Rightarrow> 'a TreeComponent \<Rightarrow> 'a TreeComponent" where
  "navigate MoveUp s = up s"
| "navigate MoveDown s = down s"
| "navigate (PageUp render_info) s = pageup render_info s"
| "navigate (PageDown render_info) s = pagedown render_info s"
| "navigate (SetValues vs) s = set_values vs s"

fun navigate_all :: "'a navigation list \<Rightarrow> 'a TreeComponent \<Rightarrow> 'a TreeComponent" where
  "navigate_all [] s = s"
| "navigate_all (op # ops) s = navigate_all ops (navigate op s)"

text \<open>Clamping a row offset to the visible range, as the specification asks of a click.\<close>

definition clamp_to_visible :: "'a TreeComponent \<Rightarrow> int \<Rightarrow> int" where
  "clamp_to_visible s y = max 0 (min (number_of_visible_elements s - 1) y)"

text \<open>
  The text of a stream, and its number of rows: the lines that the line breaks of the
  text separate, an empty stream having no row.
\<close>

definition stream_text :: "handled_fragment list \<Rightarrow> string" where
  "stream_text stream = concat (map (\<lambda>f. fst (snd f)) stream)"

definition number_of_rows :: "handled_fragment list \<Rightarrow> nat" where
  "number_of_rows stream =
     (if stream = [] then 0 else Suc (count_list (stream_text stream) (CHR 0x0A)))"

definition ends_in_newline :: "handled_fragment list \<Rightarrow> bool" where
  "ends_in_newline stream =
     (stream_text stream \<noteq> [] \<and> last (stream_text stream) = CHR 0x0A)"

text \<open>The text of fragments that carry no handler yet.\<close>

definition fragments_text :: "fragment list \<Rightarrow> string" where
  "fragments_text fs = concat (map snd fs)"

text \<open>Whether the text of a payload's rendering ends in a line break.\<close>

definition payload_ends_in_newline :: "fragment list \<Rightarrow> bool" where
  "payload_ends_in_newline fs =
     (fragments_text fs \<noteq> [] \<and> last (fragments_text fs) = CHR 0x0A)"

text \<open>
  The rows of the widget, one per visible node, numbered like the loop numbers them, and
  rows joined with one line-break fragment after every row except the last.
\<close>

fun rows_loop ::
  "'a TreeComponent \<Rightarrow> ('a \<Rightarrow> fragment list) \<Rightarrow> int \<Rightarrow> (int \<times> 'a TreeElement) list
     \<Rightarrow> fragment list list"
where
  "rows_loop s render current_index [] = []"
| "rows_loop s render current_index ((level, element) # rest) =
     row_fragments s render current_index level element
       # rows_loop s render (current_index + 1) rest"

definition visible_rows :: "'a TreeComponent \<Rightarrow> ('a \<Rightarrow> fragment list) \<Rightarrow> fragment list list" where
  "visible_rows s render = rows_loop s render 0 (traverse_visible (values_of s) 0)"

fun join_rows :: "fragment list list \<Rightarrow> fragment list" where
  "join_rows [] = []"
| "join_rows [r] = r"
| "join_rows (r # r' # rs) = r @ ('''', [CHR 0x0A]) # join_rows (r' # rs)"

text \<open>
  Every node of a forest in depth-first pre-order, collapsed subtrees included, and a
  node with every flag of its subtree forgotten: together they tell which flags an
  operation changed and that it changed nothing else.
\<close>

fun all_elements :: "'a TreeElement list \<Rightarrow> 'a TreeElement list" where
  "all_elements [] = []"
| "all_elements (TreeElement v cs ex # es) =
     TreeElement v cs ex # all_elements cs @ all_elements es"

fun erase_flags :: "'a TreeElement \<Rightarrow> 'a TreeElement" where
  "erase_flags (TreeElement v cs ex) = TreeElement v (map erase_flags cs) False"

text \<open>The position in \<open>all_elements\<close> of the node at visible position \<open>i\<close>.\<close>

fun full_position :: "nat \<Rightarrow> 'a TreeElement list \<Rightarrow> nat" where
  "full_position i [] = 0"
| "full_position 0 (e # es) = 0"
| "full_position (Suc i) (TreeElement v cs ex # es) =
     (let n = (if ex then length (traverse_visible cs 0) else 0) in
      if i < n then Suc (full_position i cs)
      else Suc (length (all_elements cs) + full_position (i - n) es))"

subsection \<open>A component to evaluate on\<close>

text \<open>
  The forest of the specification's scenario, \<open>A\<close> collapsed with two children and the
  leaf \<open>B\<close>, in a component with the brackets and the default style of
  \<^verbatim>\<open>StyledTreeComponent\<close> (src/jira\_cli.py), the first row selected.
\<close>

definition example_component :: "string TreeComponent" where
  "example_component =
     \<lparr>values_of =
        [TreeElement ''A'' [TreeElement ''A1'' [] False, TreeElement ''A2'' [] False] False,
         TreeElement ''B'' [] False],
      selected_index = 0,
      open_character = ''['',
      close_character = '']'',
      default_style = ''class:checkbox''\<rparr>"

text \<open>
  Two payload renderers to evaluate with: the issue summary on one line, and a payload
  whose text ends in a line break.
\<close>

definition example_render :: "string \<Rightarrow> fragment list" where
  "example_render v = [(''class:issue'', v)]"

definition line_break_render :: "string \<Rightarrow> fragment list" where
  "line_break_render v = [(''class:issue'', v @ [CHR 0x0A])]"

section \<open>Properties\<close>

subsection \<open>Traversal and lookup\<close>

lemma traverse_visible_Cons:
  "traverse_visible (e # es) level =
     (level, e) # (if expanded e then traverse_visible (children e) (level + 1) else [])
       @ traverse_visible es level"
  by (cases e) simp

lemma traverse_visible_append:
  "traverse_visible (xs @ ys) level = traverse_visible xs level @ traverse_visible ys level"
  by (induction xs level rule: traverse_visible.induct) simp_all

lemma traverse_visible_preorder:
  "traverse_visible es level = concat (map (visible_preorder level) es)"
  by (induction es level rule: traverse_visible.induct) simp_all

lemma map_snd_traverse_visible:
  "map snd (traverse_visible es level) = map snd (traverse_visible es level')"
proof (induction es level arbitrary: level' rule: traverse_visible.induct)
  case (1 level)
  show ?case by simp
next
  case (2 v cs ex es level)
  show ?case
    using "2.IH"(1) [of "level' + 1"] "2.IH"(2) [of level'] by simp
qed

lemma length_traverse_visible:
  "length (traverse_visible es level) = length (traverse_visible es 0)"
  using map_snd_traverse_visible [of es level 0, THEN arg_cong, of length] by simp

lemma find_loop_nth:
  "find_loop i index xs =
     (if index \<le> i \<and> i - index < int (length xs) then Some (snd (xs ! nat (i - index))) else None)"
proof (induction i index xs rule: find_loop.induct)
  case (1 i index)
  show ?case by simp
next
  case (2 i index uu element rest)
  show ?case
  proof (cases "i = index")
    case True
    then show ?thesis by simp
  next
    case False
    have eq: "nat (i - (index + 1)) = nat (i - index) - Suc 0"
      by arith
    from False show ?thesis
      using 2 by (auto simp: nth_Cons' eq)
  qed
qed

lemma traverse_visible_empty_iff:
  "traverse_visible es level = [] \<longleftrightarrow> es = []"
  by (cases es) (simp_all add: traverse_visible_Cons)

lemma find_expanded_by_index_nth:
  "find_expanded_by_index s i =
     (if 0 \<le> i \<and> i < number_of_visible_elements s
      then Some (snd (traverse_visible (values_of s) 0 ! nat i)) else None)"
  by (simp add: find_expanded_by_index_def number_of_visible_elements_def find_loop_nth)

text \<open>
  C1. For every forest, the traversal of the visible nodes is the depth-first pre-order
  of the roots in their order, every root at depth 0: a node comes before its
  descendants, the children of an expanded node follow it one level deeper, and a
  collapsed node contributes the single entry of itself, whatever its children are.
\<close>

theorem traverse_visible_is_preorder:
  "traverse_visible roots 0 = concat (map (visible_preorder 0) roots)
   \<and> (\<forall>e level. expanded e \<longrightarrow>
         traverse_visible [e] level = (level, e) # traverse_visible (children e) (level + 1))
   \<and> (\<forall>e level. \<not> expanded e \<longrightarrow> traverse_visible [e] level = [(level, e)])"
  by (simp add: traverse_visible_preorder [symmetric] traverse_visible_Cons)

theorem traverse_visible_is_preorder_witness:
  "traverse_visible
     [TreeElement ''A'' [TreeElement ''A1'' [] False, TreeElement ''A2'' [] False] False,
      TreeElement ''B'' [] False] 0 =
     [(0, TreeElement ''A'' [TreeElement ''A1'' [] False, TreeElement ''A2'' [] False] False),
      (0, TreeElement ''B'' [] False)]
   \<and> expanded (TreeElement ''A'' [TreeElement ''A1'' [] False, TreeElement ''A2'' [] False] True)
   \<and> traverse_visible
       [TreeElement ''A'' [TreeElement ''A1'' [] False, TreeElement ''A2'' [] False] True] 0 =
       [(0, TreeElement ''A'' [TreeElement ''A1'' [] False, TreeElement ''A2'' [] False] True),
        (1, TreeElement ''A1'' [] False), (1, TreeElement ''A2'' [] False)]"
  using traverse_visible_is_preorder
    [of "[TreeElement ''A'' [TreeElement ''A1'' [] False, TreeElement ''A2'' [] False] False,
          TreeElement ''B'' [] False]"]
  by simp

subsection \<open>Replacing the forest\<close>

text \<open>
  C8. Whatever the roots and the selected index were, \<open>set_values\<close> installs the new
  forest as the roots and resets the selected index to 0.
\<close>

theorem set_values_replaces_and_resets:
  "values_of (set_values new_roots s) = new_roots
   \<and> selected_index (set_values new_roots s) = 0"
  by (simp add: set_values_def)

subsection \<open>Navigation\<close>

text \<open>
  On a forest that is not empty every navigation operation keeps the selected index
  within the visible range.
\<close>

lemma number_of_visible_elements_set_values:
  "number_of_visible_elements (set_values vs s) = int (length (traverse_visible vs 0))"
  by (simp add: number_of_visible_elements_def set_values_def)

lemma number_of_visible_elements_selected_index [simp]:
  "number_of_visible_elements (s\<lparr>selected_index := i\<rparr>) = number_of_visible_elements s"
  by (simp add: number_of_visible_elements_def)

lemma number_of_visible_elements_pos:
  "values_of s \<noteq> [] \<Longrightarrow> 1 \<le> number_of_visible_elements s"
  using traverse_visible_empty_iff [of "values_of s" 0]
  by (cases "traverse_visible (values_of s) 0") (simp_all add: number_of_visible_elements_def)

lemma selection_invariant_navigate:
  assumes "selection_invariant s" and "values_of s \<noteq> []"
  shows "selection_invariant (navigate op s)"
proof -
  from assms(2) have pos: "1 \<le> number_of_visible_elements s"
    by (rule number_of_visible_elements_pos)
  show ?thesis
  proof (cases op)
    case MoveUp
    with assms(1) pos show ?thesis
      by (simp add: selection_invariant_def up_def)
  next
    case MoveDown
    with assms(1) pos show ?thesis
      by (simp add: selection_invariant_def down_def)
  next
    case (PageUp render_info)
    with assms(1) pos show ?thesis
      by (cases render_info)
        (simp_all add: selection_invariant_def pageup_def)
  next
    case (PageDown render_info)
    with assms(1) pos show ?thesis
      by (cases render_info)
        (simp_all add: selection_invariant_def pagedown_def)
  next
    case (SetValues vs)
    then show ?thesis
      by (simp add: selection_invariant_def set_values_def)
  qed
qed

text \<open>
  C2. The invariant \<open>0 \<le> selected_index < max 1 (number of visible nodes)\<close> does not
  survive the key down on the empty forest: \<open>min (0 - 1) (0 + 1)\<close> is \<open>- 1\<close>.
\<close>

theorem down_on_empty_forest:
  "selected_index (navigate_all [MoveDown] (set_values [] s)) = - 1
   \<and> \<not> selection_invariant (navigate_all [MoveDown] (set_values [] s))"
  by (simp add: down_def set_values_def selection_invariant_def number_of_visible_elements_def)

subsection \<open>The empty visible sequence\<close>

text \<open>
  C3. On the empty forest, whatever the selected index is, \<open>get_selected_element\<close>
  returns \<^verbatim>\<open>None\<close> and the navigation keys return, but \<open>handle_enter\<close> (enter,
  space, right) raises \<^verbatim>\<open>AttributeError\<close>: it reads \<^verbatim>\<open>expanded\<close> of the
  \<^verbatim>\<open>None\<close> that the lookup returned.
\<close>

theorem handle_enter_on_empty_forest:
  "traverse_visible (values_of (s\<lparr>values_of := []\<rparr>)) 0 = []
   \<and> get_selected_element (s\<lparr>values_of := []\<rparr>) = None
   \<and> handle_enter (s\<lparr>values_of := []\<rparr>) = Inl (AttributeError, s\<lparr>values_of := []\<rparr>)"
  by (simp add: get_selected_element_def handle_enter_def find_expanded_by_index_def)

subsection \<open>Toggling the selected node\<close>

text \<open>
  What \<open>set_expanded_at\<close> does to the visible sequence, to the nodes of the forest and
  to their flags.
\<close>

lemma nth_set_expanded_at:
  "i < length (traverse_visible es level) \<Longrightarrow>
     i < length (traverse_visible (set_expanded_at i b es) level) \<and>
     traverse_visible (set_expanded_at i b es) level ! i =
       (fst (traverse_visible es level ! i),
        TreeElement (value_of (snd (traverse_visible es level ! i)))
          (children (snd (traverse_visible es level ! i))) b)"
proof (induction i b es arbitrary: level rule: set_expanded_at.induct)
  case (1 i b)
  then show ?case by simp
next
  case (2 b v cs ex es)
  show ?case by simp
next
  case (3 i b v cs ex es)
  define n where "n = (if ex then length (traverse_visible cs 0) else 0)"
  define mid where "mid = (if ex then traverse_visible cs (level + 1) else [])"
  have len_mid: "length mid = n"
    unfolding mid_def n_def using length_traverse_visible [of cs "level + 1"] by simp
  have before: "traverse_visible (TreeElement v cs ex # es) level =
      (level, TreeElement v cs ex) # mid @ traverse_visible es level"
    by (simp add: mid_def)
  from "3.prems" have i_lt: "i < length mid + length (traverse_visible es level)"
    by (simp add: mid_def)
  show ?case
  proof (cases "i < n")
    case True
    then have ex by (simp add: n_def split: if_splits)
    with True have i_cs: "i < length (traverse_visible cs (level + 1))"
      using len_mid by (simp add: mid_def)
    have step: "set_expanded_at (Suc i) b (TreeElement v cs ex # es) =
        TreeElement v (set_expanded_at i b cs) ex # es"
      using True by (simp add: n_def)
    from "3.IH"(1) [OF n_def True i_cs]
    have ih: "i < length (traverse_visible (set_expanded_at i b cs) (level + 1))"
      "traverse_visible (set_expanded_at i b cs) (level + 1) ! i =
        (fst (traverse_visible cs (level + 1) ! i),
         TreeElement (value_of (snd (traverse_visible cs (level + 1) ! i)))
           (children (snd (traverse_visible cs (level + 1) ! i))) b)"
      by simp_all
    from \<open>ex\<close> i_cs ih show ?thesis
      unfolding step by (simp add: nth_append)
  next
    case False
    have step: "set_expanded_at (Suc i) b (TreeElement v cs ex # es) =
        TreeElement v cs ex # set_expanded_at (i - n) b es"
      using False by (simp add: n_def)
    from False i_lt len_mid have i_es: "i - n < length (traverse_visible es level)"
      by simp
    from "3.IH"(2) [OF n_def False i_es]
    have ih: "i - n < length (traverse_visible (set_expanded_at (i - n) b es) level)"
      "traverse_visible (set_expanded_at (i - n) b es) level ! (i - n) =
        (fst (traverse_visible es level ! (i - n)),
         TreeElement (value_of (snd (traverse_visible es level ! (i - n))))
           (children (snd (traverse_visible es level ! (i - n)))) b)"
      by simp_all
    have after: "traverse_visible (TreeElement v cs ex # set_expanded_at (i - n) b es) level =
      (level, TreeElement v cs ex) # mid @ traverse_visible (set_expanded_at (i - n) b es) level"
      by (simp add: mid_def)
    from False ih len_mid show ?thesis
      unfolding step after before by (simp add: nth_append)
  qed
qed

lemma set_expanded_at_twice:
  "set_expanded_at i b' (set_expanded_at i b es) = set_expanded_at i b' es"
proof (induction i b es rule: set_expanded_at.induct)
  case (1 i b)
  show ?case by simp
next
  case (2 b v cs ex es)
  show ?case by simp
next
  case (3 i b v cs ex es)
  define n where "n = (if ex then length (traverse_visible cs 0) else 0)"
  show ?case
  proof (cases "i < n")
    case True
    then have ex by (simp add: n_def split: if_splits)
    with True have "i < length (traverse_visible cs 0)"
      by (simp add: n_def)
    from nth_set_expanded_at [OF this, of b]
    have "i < length (traverse_visible (set_expanded_at i b cs) 0)"
      by simp
    with True \<open>ex\<close> "3.IH"(1) [OF n_def True] show ?thesis
      by (simp add: n_def)
  next
    case False
    with "3.IH"(2) [OF n_def False] show ?thesis
      by (simp add: n_def)
  qed
qed

lemma set_expanded_at_same:
  "i < length (traverse_visible es level) \<Longrightarrow>
     set_expanded_at i (expanded (snd (traverse_visible es level ! i))) es = es"
proof (induction i "expanded (snd (traverse_visible es level ! i))" es arbitrary: level
    rule: set_expanded_at.induct)
  case (1 i)
  then show ?case by simp
next
  case (2 v cs ex es)
  then show ?case by simp
next
  case (3 i v cs ex es)
  define n where "n = (if ex then length (traverse_visible cs 0) else 0)"
  define mid where "mid = (if ex then traverse_visible cs (level + 1) else [])"
  have len_mid: "length mid = n"
    unfolding mid_def n_def using length_traverse_visible [of cs "level + 1"] by simp
  have before: "traverse_visible (TreeElement v cs ex # es) level =
      (level, TreeElement v cs ex) # mid @ traverse_visible es level"
    by (simp add: mid_def)
  from "3.prems" have i_lt: "i < length mid + length (traverse_visible es level)"
    by (simp add: mid_def)
  show ?case
  proof (cases "i < n")
    case True
    then have ex by (simp add: n_def split: if_splits)
    with True have i_cs: "i < length (traverse_visible cs (level + 1))"
      using len_mid by (simp add: mid_def)
    have nth: "traverse_visible (TreeElement v cs ex # es) level ! Suc i =
        traverse_visible cs (level + 1) ! i"
      using i_cs \<open>ex\<close> by (simp add: nth_append)
    from "3.hyps"(1) [OF n_def True _ i_cs] nth True show ?thesis
      by (simp add: n_def)
  next
    case False
    from False i_lt len_mid have i_es: "i - n < length (traverse_visible es level)"
      by simp
    have nth: "traverse_visible (TreeElement v cs ex # es) level ! Suc i =
        traverse_visible es level ! (i - n)"
      using False len_mid unfolding before by (simp add: nth_append)
    from "3.hyps"(2) [OF n_def False _ i_es] nth False show ?thesis
      by (simp add: n_def)
  qed
qed

lemma map_erase_flags_set_expanded_at:
  "map erase_flags (set_expanded_at i b es) = map erase_flags es"
  by (induction i b es rule: set_expanded_at.induct) (simp_all add: Let_def)

lemma length_all_elements_set_expanded_at:
  "length (all_elements (set_expanded_at i b es)) = length (all_elements es)"
  by (induction i b es rule: set_expanded_at.induct) (simp_all add: Let_def)

lemma full_position_nth:
  "i < length (traverse_visible es level) \<Longrightarrow>
     full_position i es < length (all_elements es) \<and>
     all_elements es ! full_position i es = snd (traverse_visible es level ! i)"
proof (induction i es arbitrary: level rule: full_position.induct)
  case (1 i)
  then show ?case by simp
next
  case (2 e es)
  show ?case by (cases e) simp
next
  case (3 i v cs ex es)
  define n where "n = (if ex then length (traverse_visible cs 0) else 0)"
  define mid where "mid = (if ex then traverse_visible cs (level + 1) else [])"
  have len_mid: "length mid = n"
    unfolding mid_def n_def using length_traverse_visible [of cs "level + 1"] by simp
  have before: "traverse_visible (TreeElement v cs ex # es) level =
      (level, TreeElement v cs ex) # mid @ traverse_visible es level"
    by (simp add: mid_def)
  from "3.prems" have i_lt: "i < length mid + length (traverse_visible es level)"
    by (simp add: mid_def)
  show ?case
  proof (cases "i < n")
    case True
    then have ex by (simp add: n_def split: if_splits)
    with True have i_cs: "i < length (traverse_visible cs (level + 1))"
      using len_mid by (simp add: mid_def)
    have pos: "full_position (Suc i) (TreeElement v cs ex # es) = Suc (full_position i cs)"
      using True by (simp add: n_def)
    from "3.IH"(1) [OF n_def True i_cs]
    have ih: "full_position i cs < length (all_elements cs)"
      "all_elements cs ! full_position i cs = snd (traverse_visible cs (level + 1) ! i)"
      by simp_all
    from \<open>ex\<close> i_cs ih show ?thesis
      unfolding pos by (simp add: nth_append)
  next
    case False
    from False i_lt len_mid have i_es: "i - n < length (traverse_visible es level)"
      by simp
    have pos: "full_position (Suc i) (TreeElement v cs ex # es) =
        Suc (length (all_elements cs) + full_position (i - n) es)"
      using False by (simp add: n_def)
    from "3.IH"(2) [OF n_def False i_es]
    have ih: "full_position (i - n) es < length (all_elements es)"
      "all_elements es ! full_position (i - n) es = snd (traverse_visible es level ! (i - n))"
      by simp_all
    from False ih len_mid show ?thesis
      unfolding pos before by (simp add: nth_append)
  qed
qed

lemma flags_set_expanded_at:
  "i < length (traverse_visible es level) \<Longrightarrow>
     map expanded (all_elements (set_expanded_at i b es)) =
       (map expanded (all_elements es))[full_position i es := b]"
proof (induction i b es arbitrary: level rule: set_expanded_at.induct)
  case (1 i b)
  then show ?case by simp
next
  case (2 b v cs ex es)
  show ?case by simp
next
  case (3 i b v cs ex es)
  define n where "n = (if ex then length (traverse_visible cs 0) else 0)"
  define mid where "mid = (if ex then traverse_visible cs (level + 1) else [])"
  have len_mid: "length mid = n"
    unfolding mid_def n_def using length_traverse_visible [of cs "level + 1"] by simp
  from "3.prems" have i_lt: "i < length mid + length (traverse_visible es level)"
    by (simp add: mid_def)
  show ?case
  proof (cases "i < n")
    case True
    then have ex by (simp add: n_def split: if_splits)
    with True have i_cs: "i < length (traverse_visible cs (level + 1))"
      using len_mid by (simp add: mid_def)
    have step: "set_expanded_at (Suc i) b (TreeElement v cs ex # es) =
        TreeElement v (set_expanded_at i b cs) ex # es"
      using True by (simp add: n_def)
    have pos: "full_position (Suc i) (TreeElement v cs ex # es) = Suc (full_position i cs)"
      using True by (simp add: n_def)
    from full_position_nth [OF i_cs]
    have in_cs: "full_position i cs < length (all_elements cs)"
      by simp
    from "3.IH"(1) [OF n_def True i_cs] in_cs show ?thesis
      unfolding step pos by (simp add: list_update_append)
  next
    case False
    from False i_lt len_mid have i_es: "i - n < length (traverse_visible es level)"
      by simp
    have step: "set_expanded_at (Suc i) b (TreeElement v cs ex # es) =
        TreeElement v cs ex # set_expanded_at (i - n) b es"
      using False by (simp add: n_def)
    have pos: "full_position (Suc i) (TreeElement v cs ex # es) =
        Suc (length (all_elements cs) + full_position (i - n) es)"
      using False by (simp add: n_def)
    from "3.IH"(2) [OF n_def False i_es] show ?thesis
      unfolding step pos by (simp add: list_update_append)
  qed
qed

lemma handle_enter_in_range:
  assumes "0 \<le> selected_index s" and "selected_index s < number_of_visible_elements s"
  shows "handle_enter s =
    Inr (s\<lparr>values_of := set_expanded_at (nat (selected_index s))
      (\<not> expanded (snd (traverse_visible (values_of s) 0 ! nat (selected_index s))))
      (values_of s)\<rparr>)"
  using assms by (simp add: handle_enter_def find_expanded_by_index_nth)

lemma toggled_element:
  assumes "0 \<le> selected_index s" and "selected_index s < number_of_visible_elements s"
    and "s' = s\<lparr>values_of := set_expanded_at (nat (selected_index s)) b (values_of s)\<rparr>"
  shows "selected_index s' < number_of_visible_elements s'"
    and "snd (traverse_visible (values_of s') 0 ! nat (selected_index s')) =
      TreeElement (value_of (snd (traverse_visible (values_of s) 0 ! nat (selected_index s))))
        (children (snd (traverse_visible (values_of s) 0 ! nat (selected_index s)))) b"
proof -
  from assms(1,2) have "nat (selected_index s) < length (traverse_visible (values_of s) 0)"
    by (simp add: number_of_visible_elements_def)
  from nth_set_expanded_at [OF this, of b]
  have len: "nat (selected_index s)
      < length (traverse_visible (set_expanded_at (nat (selected_index s)) b (values_of s)) 0)"
    and nth: "snd (traverse_visible (set_expanded_at (nat (selected_index s)) b (values_of s)) 0
        ! nat (selected_index s)) =
      TreeElement (value_of (snd (traverse_visible (values_of s) 0 ! nat (selected_index s))))
        (children (snd (traverse_visible (values_of s) 0 ! nat (selected_index s)))) b"
    by simp_all
  from len assms(1) show "selected_index s' < number_of_visible_elements s'"
    unfolding assms(3) number_of_visible_elements_def by simp
  from nth show "snd (traverse_visible (values_of s') 0 ! nat (selected_index s')) =
      TreeElement (value_of (snd (traverse_visible (values_of s) 0 ! nat (selected_index s))))
        (children (snd (traverse_visible (values_of s) 0 ! nat (selected_index s)))) b"
    unfolding assms(3) by simp
qed

text \<open>
  C5. When the visible sequence is not empty and the selected index is within it,
  \<open>handle_enter\<close> twice in a row returns (neither call raises) and brings back the
  visible sequence, content and length, that was there before; indeed the whole
  component is as before.
\<close>

theorem toggle_twice_restores:
  assumes "0 \<le> selected_index s" and "selected_index s < number_of_visible_elements s"
  shows "\<exists>s' s''. handle_enter s = Inr s' \<and> handle_enter s' = Inr s''
    \<and> traverse_visible (values_of s'') 0 = traverse_visible (values_of s) 0
    \<and> s'' = s"
proof -
  define i where "i = nat (selected_index s)"
  define e where "e = snd (traverse_visible (values_of s) 0 ! i)"
  define s' where "s' = s\<lparr>values_of := set_expanded_at i (\<not> expanded e) (values_of s)\<rparr>"
  have i_lt: "i < length (traverse_visible (values_of s) 0)"
    using assms by (simp add: i_def number_of_visible_elements_def)
  have first: "handle_enter s = Inr s'"
    using handle_enter_in_range [OF assms] by (simp add: s'_def e_def i_def)
  have sel: "selected_index s' = selected_index s"
    by (simp add: s'_def)
  from toggled_element [OF assms, of s' "\<not> expanded e"]
  have range': "selected_index s' < number_of_visible_elements s'"
    and e': "expanded (snd (traverse_visible (values_of s') 0 ! nat (selected_index s'))) = (\<not> expanded e)"
    by (simp_all add: s'_def i_def)
  have "0 \<le> selected_index s'"
    using assms(1) sel by simp
  from handle_enter_in_range [OF this range']
  have "handle_enter s' = Inr (s'\<lparr>values_of := set_expanded_at i (expanded e) (values_of s')\<rparr>)"
    using e' sel by (simp add: i_def)
  also have "set_expanded_at i (expanded e) (values_of s') = values_of s"
    using set_expanded_at_same [OF i_lt]
    by (simp add: s'_def set_expanded_at_twice e_def)
  also have "s'\<lparr>values_of := values_of s\<rparr> = s"
    by (simp add: s'_def)
  finally have second: "handle_enter s' = Inr s" .
  from first second show ?thesis by simp
qed

theorem toggle_twice_restores_witness:
  "0 \<le> selected_index example_component
   \<and> selected_index example_component < number_of_visible_elements example_component
   \<and> (\<exists>s' s''. handle_enter example_component = Inr s' \<and> handle_enter s' = Inr s''
        \<and> traverse_visible (values_of s'') 0 = traverse_visible (values_of example_component) 0
        \<and> s'' = example_component)"
proof -
  have h1: "0 \<le> selected_index example_component"
    by (simp add: example_component_def)
  have h2: "selected_index example_component < number_of_visible_elements example_component"
    by (simp add: example_component_def number_of_visible_elements_def)
  from h1 h2 toggle_twice_restores [OF h1 h2] show ?thesis
    by blast
qed

text \<open>
  C10. When the visible sequence is not empty and the selected index is within it,
  \<open>handle_enter\<close> returns a component that differs from the old one in the forest only
  (the selected index and the other attributes are the same); the forest has the same
  nodes with the same payloads and children once the flags are forgotten; among the
  flags of all nodes, visible or not, exactly the flag of the selected node \<open>n\<close> has
  changed, to its negation; and the selected element afterwards is \<open>n\<close> with that flag
  negated, its payload and children untouched.
\<close>

theorem toggle_changes_one_flag:
  assumes "0 \<le> selected_index s" and "selected_index s < number_of_visible_elements s"
  shows "\<exists>s' n. handle_enter s = Inr s' \<and> get_selected_element s = Some n
    \<and> s' = s\<lparr>values_of := values_of s'\<rparr>
    \<and> selected_index s' = selected_index s
    \<and> map erase_flags (values_of s') = map erase_flags (values_of s)
    \<and> (\<exists>k<length (all_elements (values_of s)).
          all_elements (values_of s) ! k = n
          \<and> map expanded (all_elements (values_of s')) =
              (map expanded (all_elements (values_of s)))[k := \<not> expanded n])
    \<and> get_selected_element s' = Some (TreeElement (value_of n) (children n) (\<not> expanded n))"
proof -
  define i where "i = nat (selected_index s)"
  define n where "n = snd (traverse_visible (values_of s) 0 ! i)"
  define s' where "s' = s\<lparr>values_of := set_expanded_at i (\<not> expanded n) (values_of s)\<rparr>"
  have i_lt: "i < length (traverse_visible (values_of s) 0)"
    using assms by (simp add: i_def number_of_visible_elements_def)
  have toggled: "handle_enter s = Inr s'"
    using handle_enter_in_range [OF assms] by (simp add: s'_def n_def i_def)
  have found: "get_selected_element s = Some n"
    using assms by (simp add: get_selected_element_def find_expanded_by_index_nth n_def i_def)
  have rest: "s' = s\<lparr>values_of := values_of s'\<rparr>"
    by (simp add: s'_def)
  have sel: "selected_index s' = selected_index s"
    by (simp add: s'_def)
  have shape: "map erase_flags (values_of s') = map erase_flags (values_of s)"
    by (simp add: s'_def map_erase_flags_set_expanded_at)
  from full_position_nth [OF i_lt]
  have k_lt: "full_position i (values_of s) < length (all_elements (values_of s))"
    and k_nth: "all_elements (values_of s) ! full_position i (values_of s) = n"
    by (simp_all add: n_def)
  have flags: "map expanded (all_elements (values_of s')) =
      (map expanded (all_elements (values_of s)))[full_position i (values_of s) := \<not> expanded n]"
    using flags_set_expanded_at [OF i_lt] by (simp add: s'_def)
  from toggled_element [OF assms, of s' "\<not> expanded n"]
  have range': "selected_index s' < number_of_visible_elements s'"
    and nth': "snd (traverse_visible (values_of s') 0 ! nat (selected_index s')) =
      TreeElement (value_of n) (children n) (\<not> expanded n)"
    by (simp_all add: s'_def i_def n_def)
  have found': "get_selected_element s' =
      Some (TreeElement (value_of n) (children n) (\<not> expanded n))"
    using assms(1) sel range' nth'
    by (simp add: get_selected_element_def find_expanded_by_index_nth)
  from toggled found rest sel shape k_lt k_nth flags found' show ?thesis
    by blast
qed

theorem toggle_changes_one_flag_witness:
  "0 \<le> selected_index example_component
   \<and> selected_index example_component < number_of_visible_elements example_component
   \<and> (\<exists>s' n. handle_enter example_component = Inr s'
        \<and> get_selected_element example_component = Some n
        \<and> s' = example_component\<lparr>values_of := values_of s'\<rparr>
        \<and> selected_index s' = selected_index example_component
        \<and> map erase_flags (values_of s') = map erase_flags (values_of example_component)
        \<and> (\<exists>k<length (all_elements (values_of example_component)).
              all_elements (values_of example_component) ! k = n
              \<and> map expanded (all_elements (values_of s')) =
                  (map expanded (all_elements (values_of example_component)))[k := \<not> expanded n])
        \<and> get_selected_element s' =
            Some (TreeElement (value_of n) (children n) (\<not> expanded n)))"
proof -
  have h1: "0 \<le> selected_index example_component"
    by (simp add: example_component_def)
  have h2: "selected_index example_component < number_of_visible_elements example_component"
    by (simp add: example_component_def number_of_visible_elements_def)
  from h1 h2 toggle_changes_one_flag [OF h1 h2] show ?thesis
    by blast
qed

subsection \<open>Mouse activation\<close>

text \<open>
  C4, as stated, fails: the handler assigns the row offset without clamping it. On the
  example component (two visible rows) a click on row 5 leaves the selected index at 5,
  toggles nothing and raises, whereas clamping would have selected row 1.
\<close>

theorem mouse_up_out_of_range:
  "number_of_visible_elements example_component = 2
   \<and> clamp_to_visible example_component 5 = 1
   \<and> mouse_handler \<lparr>event_type = MOUSE_UP, position_y = 5\<rparr> example_component =
       Inl (AttributeError, example_component\<lparr>selected_index := 5\<rparr>)
   \<and> mouse_handler \<lparr>event_type = MOUSE_UP, position_y = 5\<rparr> example_component \<noteq>
       handle_enter (example_component
         \<lparr>selected_index := clamp_to_visible example_component 5\<rparr>)"
  by (simp add: example_component_def number_of_visible_elements_def clamp_to_visible_def
      mouse_handler_def handle_enter_def find_expanded_by_index_def)

text \<open>
  C4, amended. For every \<^verbatim>\<open>MOUSE_UP\<close> event whose row offset lies within the visible
  sequence, the handler sets the selected index to that offset and toggles the node found
  there, in one call; within that range the offset is its own clamped value, so the
  handler agrees with select-after-clamping-and-activate.
\<close>

theorem mouse_up_in_range:
  assumes "event_type mouse_event = MOUSE_UP"
    and "0 \<le> position_y mouse_event"
    and "position_y mouse_event < number_of_visible_elements s"
  shows "\<exists>element. find_expanded_by_index s (position_y mouse_event) = Some element
    \<and> mouse_handler mouse_event s =
        Inr (s\<lparr>selected_index := position_y mouse_event,
               values_of := set_expanded_at (nat (position_y mouse_event))
                 (\<not> expanded element) (values_of s)\<rparr>)
    \<and> mouse_handler mouse_event s =
        handle_enter (s\<lparr>selected_index := clamp_to_visible s (position_y mouse_event)\<rparr>)"
proof -
  have clamp: "clamp_to_visible s (position_y mouse_event) = position_y mouse_event"
    using assms(2,3) by (simp add: clamp_to_visible_def)
  have find: "find_expanded_by_index (s\<lparr>selected_index := position_y mouse_event\<rparr>) 
      (position_y mouse_event) = find_expanded_by_index s (position_y mouse_event)"
    by (simp add: find_expanded_by_index_def)
  from assms show ?thesis
    unfolding clamp
    by (simp add: mouse_handler_def handle_enter_def find find_expanded_by_index_nth)
qed

theorem mouse_up_in_range_witness:
  "event_type \<lparr>event_type = MOUSE_UP, position_y = 1\<rparr> = MOUSE_UP
   \<and> 0 \<le> position_y \<lparr>event_type = MOUSE_UP, position_y = 1\<rparr>
   \<and> position_y \<lparr>event_type = MOUSE_UP, position_y = 1\<rparr>
       < number_of_visible_elements example_component
   \<and> mouse_handler \<lparr>event_type = MOUSE_UP, position_y = 1\<rparr> example_component =
       Inr (example_component\<lparr>selected_index := 1,
         values_of :=
           [TreeElement ''A'' [TreeElement ''A1'' [] False, TreeElement ''A2'' [] False] False,
            TreeElement ''B'' [] True]\<rparr>)"
proof -
  have h1: "event_type \<lparr>event_type = MOUSE_UP, position_y = 1\<rparr> = MOUSE_UP"
    by simp
  have h2: "0 \<le> position_y \<lparr>event_type = MOUSE_UP, position_y = 1\<rparr>"
    by simp
  have h3: "position_y \<lparr>event_type = MOUSE_UP, position_y = 1\<rparr>
      < number_of_visible_elements example_component"
    by (simp add: example_component_def number_of_visible_elements_def)
  from h1 h2 h3 mouse_up_in_range [OF h1 h2 h3] show ?thesis
    by (auto simp: example_component_def find_expanded_by_index_def)
qed

subsection \<open>The rendered stream\<close>

lemma fragments_loop_rows:
  "fragments_loop s render current_index vis =
     concat (map (\<lambda>r. r @ [('''', [CHR 0x0A])]) (rows_loop s render current_index vis))"
  by (induction s render current_index vis rule: fragments_loop.induct) simp_all

lemma length_rows_loop:
  "length (rows_loop s render current_index vis) = length vis"
  by (induction s render current_index vis rule: rows_loop.induct) simp_all

lemma nth_rows_loop:
  "k < length vis \<Longrightarrow>
     rows_loop s render current_index vis ! k =
       row_fragments s render (current_index + int k) (fst (vis ! k)) (snd (vis ! k))"
proof (induction s render current_index vis arbitrary: k rule: rows_loop.induct)
  case (1 s render current_index)
  then show ?case by simp
next
  case (2 s render current_index level element rest)
  show ?case
  proof (cases k)
    case 0
    then show ?thesis by simp
  next
    case (Suc j)
    with "2.prems" have "j < length rest" by simp
    from "2.IH" [OF this] Suc show ?thesis
      by (simp add: add.assoc)
  qed
qed

lemma butlast_concat_rows:
  "rows \<noteq> [] \<Longrightarrow>
     butlast (concat (map (\<lambda>r. r @ [('''', [CHR 0x0A])]) rows)) = join_rows rows"
proof (induction rows rule: join_rows.induct)
  case 1
  then show ?case by simp
next
  case (2 r)
  show ?case by (simp add: butlast_append)
next
  case (3 r r' rs)
  then show ?case by (simp add: butlast_append)
qed

lemma get_text_fragments_join:
  "get_text_fragments s render = map add_handler (join_rows (visible_rows s render))"
proof (cases "visible_rows s render = []")
  case True
  then show ?thesis
    by (simp add: get_text_fragments_def fragments_loop_rows visible_rows_def)
next
  case False
  then have "concat (map (\<lambda>r. r @ [('''', [CHR 0x0A])]) (visible_rows s render)) \<noteq> []"
    by (cases "visible_rows s render") simp_all
  with butlast_concat_rows [OF False] show ?thesis
    by (simp add: get_text_fragments_def fragments_loop_rows visible_rows_def Let_def
        map_butlast [symmetric])
qed

lemma join_rows_last:
  "rows \<noteq> [] \<Longrightarrow> \<exists>pre. join_rows rows = pre @ last rows"
proof (induction rows rule: join_rows.induct)
  case 1
  then show ?case by simp
next
  case (2 r)
  show ?case by simp
next
  case (3 r r' rs)
  then obtain pre where "join_rows (r' # rs) = pre @ last (r' # rs)"
    by auto
  then have "join_rows (r # r' # rs) = (r @ ('''', [CHR 0x0A]) # pre) @ last (r # r' # rs)"
    by simp
  then show ?case by blast
qed

lemma stream_text_add_handler:
  "stream_text (map add_handler fs) = fragments_text fs"
  by (simp add: stream_text_def fragments_text_def add_handler_def comp_def)

lemma traverse_visible_levels:
  "(depth, node) \<in> set (traverse_visible es level) \<Longrightarrow> level \<le> depth"
proof (induction es level rule: traverse_visible.induct)
  case (1 level)
  then show ?case by simp
next
  case (2 v cs ex es level)
  then show ?case by (auto split: if_splits)
qed

lemma visible_rows_nth:
  assumes "k < length (traverse_visible (values_of s) 0)"
    and "traverse_visible (values_of s) 0 ! k = (depth, node)"
  shows "visible_rows s render ! k = row_fragments s render (int k) depth node"
  using nth_rows_loop [OF assms(1), of s render 0] assms(2)
  by (simp add: visible_rows_def)

text \<open>
  C7. The stream is made of the rows of the visible nodes. The row of the visible node
  number \<open>k\<close>, at depth \<open>depth\<close>, is \<open>depth\<close> times the indent unit of three blanks, the
  open character, the cursor marker when the row is the selected one, one glyph, the
  close character, a blank and the payload's rendering; the glyph is \<open>-\<close> for an
  expanded node with children, \<open>+\<close> for a collapsed node with children, and a blank for
  a node without children, whatever its flag.
\<close>

theorem row_marker_and_indent:
  assumes "k < length (traverse_visible (values_of s) 0)"
    and "traverse_visible (values_of s) 0 ! k = (depth, node)"
  shows "get_text_fragments s render = map add_handler (join_rows (visible_rows s render))
    \<and> 0 \<le> depth
    \<and> (\<exists>glyph. visible_rows s render ! k =
          replicate (nat depth) ('''', ''   '')
            @ [('''', open_character s)]
            @ (if int k = selected_index s then [(''[SetCursorPosition]'', '''')] else [])
            @ [('''', glyph)]
            @ [('''', close_character s), (default_style s, '' '')]
            @ render (value_of node)
        \<and> (children node \<noteq> [] \<and> expanded node \<longrightarrow> glyph = ''-'')
        \<and> (children node \<noteq> [] \<and> \<not> expanded node \<longrightarrow> glyph = ''+'')
        \<and> (children node = [] \<longrightarrow> glyph = '' ''))"
proof -
  from assms have "(depth, node) \<in> set (traverse_visible (values_of s) 0)"
    by (metis nth_mem)
  then have depth: "0 \<le> depth"
    by (rule traverse_visible_levels)
  define glyph where "glyph =
    (if children node \<noteq> [] then (if expanded node then ''-'' else ''+'') else '' '')"
  have row: "visible_rows s render ! k =
      replicate (nat depth) ('''', ''   '')
        @ [('''', open_character s)]
        @ (if int k = selected_index s then [(''[SetCursorPosition]'', '''')] else [])
        @ [('''', glyph)]
        @ [('''', close_character s), (default_style s, '' '')]
        @ render (value_of node)"
    unfolding visible_rows_nth [OF assms] row_fragments_def glyph_def
    by (simp add: Let_def)
  have glyphs: "(children node \<noteq> [] \<and> expanded node \<longrightarrow> glyph = ''-'')
      \<and> (children node \<noteq> [] \<and> \<not> expanded node \<longrightarrow> glyph = ''+'')
      \<and> (children node = [] \<longrightarrow> glyph = '' '')"
    by (simp add: glyph_def)
  from get_text_fragments_join [of s render] depth row glyphs show ?thesis
    by blast
qed

theorem row_marker_and_indent_witness:
  "(1::nat) < length (traverse_visible (values_of example_component) 0)
   \<and> traverse_visible (values_of example_component) 0 ! 1 = (0, TreeElement ''B'' [] False)
   \<and> children (TreeElement ''B'' [] False) = []
   \<and> visible_rows example_component example_render ! 1 =
       [('''', ''[''), ('''', '' ''), ('''', '']''), (''class:checkbox'', '' ''),
        (''class:issue'', ''B'')]
   \<and> children (TreeElement ''A'' [TreeElement ''A1'' [] False, TreeElement ''A2'' [] False]
         False) \<noteq> []
   \<and> \<not> expanded (TreeElement ''A'' [TreeElement ''A1'' [] False, TreeElement ''A2'' [] False]
         False)
   \<and> visible_rows example_component example_render ! 0 =
       [('''', ''[''), (''[SetCursorPosition]'', ''''), ('''', ''+''), ('''', '']''),
        (''class:checkbox'', '' ''), (''class:issue'', ''A'')]"
proof -
  have h1: "(1::nat) < length (traverse_visible (values_of example_component) 0)"
    by (simp add: example_component_def)
  have h2: "traverse_visible (values_of example_component) 0 ! 1 =
      (0, TreeElement ''B'' [] False)"
    by (simp add: example_component_def)
  have g1: "(0::nat) < length (traverse_visible (values_of example_component) 0)"
    by (simp add: example_component_def)
  have g2: "traverse_visible (values_of example_component) 0 ! 0 =
      (0, TreeElement ''A'' [TreeElement ''A1'' [] False, TreeElement ''A2'' [] False] False)"
    by (simp add: example_component_def)
  have sel: "selected_index example_component = 0"
    and sty: "open_character example_component = ''[''"
      "close_character example_component = '']''"
      "default_style example_component = ''class:checkbox''"
    by (simp_all add: example_component_def)
  from row_marker_and_indent [OF h1 h2, of example_render]
  have row1: "visible_rows example_component example_render ! 1 =
      [('''', ''[''), ('''', '' ''), ('''', '']''), (''class:checkbox'', '' ''),
       (''class:issue'', ''B'')]"
    by (auto simp: sel sty example_render_def)
  from row_marker_and_indent [OF g1 g2, of example_render]
  have row0: "visible_rows example_component example_render ! 0 =
      [('''', ''[''), (''[SetCursorPosition]'', ''''), ('''', ''+''), ('''', '']''),
       (''class:checkbox'', '' ''), (''class:issue'', ''A'')]"
    by (auto simp: sel sty example_render_def)
  from h1 h2 row1 row0 show ?thesis
    by simp
qed

lemma fragments_text_append [simp]:
  "fragments_text (xs @ ys) = fragments_text xs @ fragments_text ys"
  by (simp add: fragments_text_def)

lemma fragments_text_Cons [simp]:
  "fragments_text (f # fs) = snd f @ fragments_text fs"
  by (simp add: fragments_text_def)

lemma fragments_text_Nil [simp]:
  "fragments_text [] = []"
  by (simp add: fragments_text_def)

lemma fragments_text_indent:
  "CHR 0x0A \<notin> set (fragments_text (replicate n ('''', ''   '')))"
  by (induction n) simp_all

lemma row_fragments_text:
  "\<exists>pre. fragments_text (row_fragments s render current_index level element) =
     pre @ '' '' @ fragments_text (render (value_of element))"
proof -
  have "fragments_text (row_fragments s render current_index level element) =
      (fragments_text (replicate (nat level) ('''', ''   '')) @ open_character s
        @ (if children element \<noteq> [] then (if expanded element then ''-'' else ''+'') else '' '')
        @ close_character s)
      @ '' '' @ fragments_text (render (value_of element))"
    by (simp add: row_fragments_def Let_def)
  then show ?thesis by blast
qed

lemma row_fragments_no_newline:
  assumes "CHR 0x0A \<notin> set (open_character s)"
    and "CHR 0x0A \<notin> set (close_character s)"
    and "CHR 0x0A \<notin> set (fragments_text (render (value_of element)))"
  shows "CHR 0x0A \<notin> set (fragments_text (row_fragments s render current_index level element))"
  using assms fragments_text_indent [of "nat level"]
  by (simp add: row_fragments_def Let_def)

lemma row_fragments_not_Nil:
  "row_fragments s render current_index level element \<noteq> []"
  by (simp add: row_fragments_def Let_def)

lemma join_rows_not_Nil:
  "rows \<noteq> [] \<Longrightarrow> [] \<notin> set rows \<Longrightarrow> join_rows rows \<noteq> []"
  by (induction rows rule: join_rows.induct) simp_all

lemma count_newlines_join_rows:
  "rows \<noteq> [] \<Longrightarrow> \<forall>r\<in>set rows. CHR 0x0A \<notin> set (fragments_text r) \<Longrightarrow>
     Suc (count_list (fragments_text (join_rows rows)) (CHR 0x0A)) = length rows"
proof (induction rows rule: join_rows.induct)
  case 1
  then show ?case by simp
next
  case (2 r)
  then show ?case by (simp add: count_list_0_iff)
next
  case (3 r r' rs)
  then show ?case by (simp add: count_list_0_iff)
qed

lemma rows_loop_set:
  "r \<in> set (rows_loop s render current_index vis) \<Longrightarrow>
     \<exists>ci level element. (level, element) \<in> set vis
       \<and> r = row_fragments s render ci level element"
proof (induction s render current_index vis rule: rows_loop.induct)
  case (1 s render current_index)
  then show ?case by simp
next
  case (2 s render current_index level element rest)
  then show ?case by (simp, blast)
qed

text \<open>
  C6, amended. The number of visible nodes is the length of the traversal; and when
  neither the open and close characters nor the payload rendering of any visible node
  contains a line break, it is also the number of rows of the rendered stream.
\<close>

theorem rows_match_visible_nodes:
  assumes "CHR 0x0A \<notin> set (open_character s)"
    and "CHR 0x0A \<notin> set (close_character s)"
    and "\<forall>(depth, node) \<in> set (traverse_visible (values_of s) 0).
           CHR 0x0A \<notin> set (fragments_text (render (value_of node)))"
  shows "number_of_visible_elements s = int (length (traverse_visible (values_of s) 0))
    \<and> int (number_of_rows (get_text_fragments s render)) = number_of_visible_elements s"
proof (cases "traverse_visible (values_of s) 0 = []")
  case True
  then show ?thesis
    by (simp add: number_of_visible_elements_def get_text_fragments_join visible_rows_def
        number_of_rows_def)
next
  case False
  then have rows: "visible_rows s render \<noteq> []"
    using length_rows_loop [of s render 0 "traverse_visible (values_of s) 0"]
    by (auto simp: visible_rows_def)
  have no_nl: "\<forall>r\<in>set (visible_rows s render). CHR 0x0A \<notin> set (fragments_text r)"
  proof
    fix r
    assume "r \<in> set (visible_rows s render)"
    from rows_loop_set [OF this [unfolded visible_rows_def]]
    obtain ci level element
      where mem: "(level, element) \<in> set (traverse_visible (values_of s) 0)"
        and r: "r = row_fragments s render ci level element"
      by blast
    from assms(3) mem have "CHR 0x0A \<notin> set (fragments_text (render (value_of element)))"
      by auto
    from row_fragments_no_newline [where render = render, OF assms(1,2) this] r
    show "CHR 0x0A \<notin> set (fragments_text r)"
      by simp
  qed
  have "[] \<notin> set (visible_rows s render)"
  proof
    assume "[] \<in> set (visible_rows s render)"
    from rows_loop_set [OF this [unfolded visible_rows_def]] row_fragments_not_Nil
    show False by metis
  qed
  from join_rows_not_Nil [OF rows this]
  have nonempty: "get_text_fragments s render \<noteq> []"
    by (simp add: get_text_fragments_join)
  have "number_of_rows (get_text_fragments s render) = length (visible_rows s render)"
    using nonempty count_newlines_join_rows [OF rows no_nl]
    by (simp add: number_of_rows_def get_text_fragments_join stream_text_add_handler)
  then show ?thesis
    by (simp add: number_of_visible_elements_def visible_rows_def length_rows_loop)
qed

theorem rows_match_visible_nodes_witness:
  "CHR 0x0A \<notin> set (open_character example_component)
   \<and> CHR 0x0A \<notin> set (close_character example_component)
   \<and> CHR 0x0A \<notin> set (fragments_text (example_render ''A''))
   \<and> CHR 0x0A \<notin> set (fragments_text (example_render ''B''))
   \<and> number_of_visible_elements example_component = 2
   \<and> number_of_rows (get_text_fragments example_component example_render) = 2"
proof -
  have h1: "CHR 0x0A \<notin> set (open_character example_component)"
    and h2: "CHR 0x0A \<notin> set (close_character example_component)"
    by (simp_all add: example_component_def)
  have h3: "\<forall>(depth, node) \<in> set (traverse_visible (values_of example_component) 0).
      CHR 0x0A \<notin> set (fragments_text (example_render (value_of node)))"
    by (simp add: example_component_def example_render_def)
  have n: "number_of_visible_elements example_component = 2"
    by (simp add: example_component_def number_of_visible_elements_def)
  have p: "CHR 0x0A \<notin> set (fragments_text (example_render ''A''))"
    "CHR 0x0A \<notin> set (fragments_text (example_render ''B''))"
    by (simp_all add: example_render_def)
  from h1 h2 p n rows_match_visible_nodes [OF h1 h2 h3] show ?thesis
    by simp
qed

text \<open>
  C6, as stated, fails for a payload whose rendering contains a line break: the example
  component has two visible nodes, and with such payloads its stream has four rows.
\<close>

theorem rows_exceed_visible_nodes:
  "number_of_visible_elements example_component = 2
   \<and> number_of_rows (get_text_fragments example_component line_break_render) = 4
   \<and> int (number_of_rows (get_text_fragments example_component line_break_render))
       \<noteq> number_of_visible_elements example_component"
  by (simp add: example_component_def number_of_visible_elements_def get_text_fragments_def
      row_fragments_def line_break_render_def add_handler_def number_of_rows_def
      stream_text_def)

lemma last_visible_row:
  assumes "traverse_visible (values_of s) 0 \<noteq> []"
  shows "\<exists>ci. last (visible_rows s render) =
    row_fragments s render ci (fst (last (traverse_visible (values_of s) 0)))
      (snd (last (traverse_visible (values_of s) 0)))"
proof -
  define vis where "vis = traverse_visible (values_of s) 0"
  from assms have k: "length vis - 1 < length vis"
    by (simp add: vis_def)
  have "visible_rows s render \<noteq> []"
    using assms length_rows_loop [of s render 0 vis] by (auto simp: visible_rows_def vis_def)
  then have "last (visible_rows s render) = rows_loop s render 0 vis ! (length vis - 1)"
    by (simp add: last_conv_nth visible_rows_def vis_def length_rows_loop)
  also have "\<dots> = row_fragments s render (0 + int (length vis - 1))
      (fst (vis ! (length vis - 1))) (snd (vis ! (length vis - 1)))"
    by (rule nth_rows_loop [OF k])
  also have "vis ! (length vis - 1) = last vis"
    using assms by (simp add: last_conv_nth vis_def)
  finally show ?thesis
    unfolding vis_def by blast
qed

lemma stream_text_last_row:
  assumes "traverse_visible (values_of s) 0 \<noteq> []"
  shows "\<exists>pre. stream_text (get_text_fragments s render) =
    pre @ '' '' @ fragments_text
      (render (value_of (snd (last (traverse_visible (values_of s) 0)))))"
proof -
  have rows: "visible_rows s render \<noteq> []"
    using assms length_rows_loop [of s render 0 "traverse_visible (values_of s) 0"]
    by (auto simp: visible_rows_def)
  from join_rows_last [OF rows]
  obtain pre where joined: "join_rows (visible_rows s render) =
      pre @ last (visible_rows s render)"
    by blast
  from last_visible_row [OF assms, of render]
  obtain ci where "last (visible_rows s render) =
      row_fragments s render ci (fst (last (traverse_visible (values_of s) 0)))
        (snd (last (traverse_visible (values_of s) 0)))"
    by blast
  with row_fragments_text
    [of s render ci "fst (last (traverse_visible (values_of s) 0))"
      "snd (last (traverse_visible (values_of s) 0))"]
  obtain pre' where "fragments_text (last (visible_rows s render)) =
      pre' @ '' '' @ fragments_text
        (render (value_of (snd (last (traverse_visible (values_of s) 0)))))"
    by auto
  moreover have "stream_text (get_text_fragments s render) =
      fragments_text (join_rows (visible_rows s render))"
    by (simp only: get_text_fragments_join stream_text_add_handler)
  ultimately have "stream_text (get_text_fragments s render) =
      (fragments_text pre @ pre') @ '' '' @ fragments_text
        (render (value_of (snd (last (traverse_visible (values_of s) 0)))))"
    using joined by simp
  then show ?thesis by blast
qed

text \<open>
  C9, amended. Rendering is a total function of the component and the payload renderer.
  The stream consists of the rows, one per visible node, with one line-break fragment
  after every row except the last; the stream of the empty forest is empty; and the
  stream ends in a line break exactly when the forest is not empty and the payload
  rendering of the last visible node ends in one.
\<close>

theorem line_breaks_between_rows:
  "get_text_fragments s render = map add_handler (join_rows (visible_rows s render))
   \<and> length (visible_rows s render) = length (traverse_visible (values_of s) 0)
   \<and> (values_of s = [] \<longrightarrow> get_text_fragments s render = [])
   \<and> (ends_in_newline (get_text_fragments s render) \<longleftrightarrow>
        traverse_visible (values_of s) 0 \<noteq> []
        \<and> payload_ends_in_newline
            (render (value_of (snd (last (traverse_visible (values_of s) 0))))))"
proof -
  have joined: "get_text_fragments s render =
      map add_handler (join_rows (visible_rows s render))"
    by (rule get_text_fragments_join)
  have len: "length (visible_rows s render) = length (traverse_visible (values_of s) 0)"
    by (simp add: visible_rows_def length_rows_loop)
  have empty: "values_of s = [] \<longrightarrow> get_text_fragments s render = []"
    by (simp add: joined visible_rows_def)
  have ends: "ends_in_newline (get_text_fragments s render) \<longleftrightarrow>
      traverse_visible (values_of s) 0 \<noteq> []
      \<and> payload_ends_in_newline
          (render (value_of (snd (last (traverse_visible (values_of s) 0)))))"
  proof (cases "traverse_visible (values_of s) 0 = []")
    case True
    then show ?thesis
      by (simp add: joined visible_rows_def ends_in_newline_def stream_text_def)
  next
    case False
    from stream_text_last_row [OF False, of render]
    obtain pre where "stream_text (get_text_fragments s render) =
        pre @ '' '' @ fragments_text
          (render (value_of (snd (last (traverse_visible (values_of s) 0)))))"
      by blast
    with False show ?thesis
      by (simp add: ends_in_newline_def payload_ends_in_newline_def)
  qed
  from joined len empty ends show ?thesis
    by blast
qed

theorem line_breaks_between_rows_witness:
  "values_of (set_values [] example_component) = []
   \<and> get_text_fragments (set_values [] example_component) example_render = []
   \<and> \<not> payload_ends_in_newline (example_render ''B'')
   \<and> \<not> ends_in_newline (get_text_fragments example_component example_render)
   \<and> get_text_fragments example_component example_render =
       map add_handler
         [('''', ''[''), (''[SetCursorPosition]'', ''''), ('''', ''+''), ('''', '']''),
          (''class:checkbox'', '' ''), (''class:issue'', ''A''),
          ('''', [CHR 0x0A]),
          ('''', ''[''), ('''', '' ''), ('''', '']''), (''class:checkbox'', '' ''),
          (''class:issue'', ''B'')]"
proof -
  have h: "values_of (set_values [] example_component) = []"
    by (simp add: set_values_def)
  have p: "\<not> payload_ends_in_newline (example_render ''B'')"
    by (simp add: payload_ends_in_newline_def example_render_def)
  have l: "snd (last (traverse_visible (values_of example_component) 0)) =
      TreeElement ''B'' [] False"
    by (simp add: example_component_def)
  have rows: "visible_rows example_component example_render =
      [[('''', ''[''), (''[SetCursorPosition]'', ''''), ('''', ''+''), ('''', '']''),
        (''class:checkbox'', '' ''), (''class:issue'', ''A'')],
       [('''', ''[''), ('''', '' ''), ('''', '']''), (''class:checkbox'', '' ''),
        (''class:issue'', ''B'')]]"
    by (simp add: visible_rows_def example_component_def row_fragments_def example_render_def)
  from line_breaks_between_rows [of "set_values [] example_component" example_render] h
  have empty: "get_text_fragments (set_values [] example_component) example_render = []"
    by blast
  from line_breaks_between_rows [of example_component example_render]
  have ends: "ends_in_newline (get_text_fragments example_component example_render) \<longleftrightarrow>
      traverse_visible (values_of example_component) 0 \<noteq> []
      \<and> payload_ends_in_newline (example_render (value_of
          (snd (last (traverse_visible (values_of example_component) 0)))))"
    and joined: "get_text_fragments example_component example_render =
      map add_handler (join_rows (visible_rows example_component example_render))"
    by blast+
  from ends p have "\<not> ends_in_newline (get_text_fragments example_component example_render)"
    unfolding l by simp
  with h p empty joined show ?thesis
    unfolding rows by simp
qed

text \<open>
  C9, as stated, fails for a payload whose rendering ends in a line break: the stream of
  the example component then ends in a newline.
\<close>

theorem payload_line_break_ends_stream:
  "ends_in_newline (get_text_fragments example_component line_break_render)"
  by (simp add: example_component_def get_text_fragments_def row_fragments_def
      line_break_render_def add_handler_def ends_in_newline_def stream_text_def)

end
